theory Spec2Isabelle
  imports Complex_Main "HOL-Library.AList" "HOL-Library.Sublist"
begin

section \<open>Extractive summarisation: \<open>summarize_text\<close> of \<open>youtube_summarizer.py\<close>\<close>

text \<open>
  The development embeds \<open>summarize_text(text, nlp, summary_length)\<close>.

  \<^item> A Python \<open>str\<close> is a \<open>string\<close>, one \<open>char\<close> per code point; the code points
    covered are those below 256, on which \<open>str.lower\<close> and \<open>str.strip\<close> are written out
    below exactly as Python computes them.
  \<^item> The spaCy pipeline \<open>nlp\<close> and the set \<open>STOP_WORDS\<close> live outside the repository
    and are parameters. A \<open>Doc\<close> is what the function reads of it: the texts of its
    tokens and its sentences, each sentence with its own text and token texts.
  \<^item> A \<open>dict\<close> is an association list with distinct keys in insertion order, updated
    by \<open>AList.update\<close> (an existing key keeps its place, a new key goes to the end).
  \<^item> A Python \<open>float\<close> is the rational number it denotes, and every float operation
    of the function (the division of the counts, the addition of the weights, the product
    with \<open>summary_length\<close>) rounds its exact result to the nearest double, ties to even,
    as IEEE 754 arithmetic does. Doubles have any exponent here: overflow and subnormal
    numbers, which the counts and fractions of this function do not reach, are not modelled.
\<close>

subsection \<open>Strings\<close>

definition lower_char :: "char \<Rightarrow> char" where
  "lower_char c =
     (let n = (of_char c :: nat)
      in if (65 \<le> n \<and> n \<le> 90) \<or> (192 \<le> n \<and> n \<le> 222 \<and> n \<noteq> 215)
         then char_of (n + 32) else c)"

definition lower :: "string \<Rightarrow> string" where
  "lower s = map lower_char s"

text \<open>The characters \<open>str.strip()\<close> removes, among the code points below 256.\<close>

definition is_space :: "char \<Rightarrow> bool" where
  "is_space c =
     (let n = (of_char c :: nat)
      in (9 \<le> n \<and> n \<le> 13) \<or> (28 \<le> n \<and> n \<le> 32) \<or> n = 133 \<or> n = 160)"

definition strip :: "string \<Rightarrow> string" where
  "strip s = rev (dropWhile is_space (rev (dropWhile is_space s)))"

text \<open>
  \<open>string.punctuation\<close>: the 32 ASCII punctuation characters in code-point order,
  from the exclamation mark (33) to the tilde (126).
\<close>

definition punctuation :: string where
  "punctuation = map char_of ([33..<48] @ [58..<65] @ [91..<97] @ [123..<127] :: nat list)"

text \<open>\<open>' '.join(parts)\<close>.\<close>

fun join_space :: "string list \<Rightarrow> string" where
  "join_space [] = []"
| "join_space [s] = s"
| "join_space (s # t # ts) = s @ '' '' @ join_space (t # ts)"

subsection \<open>Floating point\<close>

text \<open>\<open>pow2 e\<close> is 2 to the power \<open>e\<close>, for any integer \<open>e\<close>.\<close>

definition pow2 :: "int \<Rightarrow> rat" where
  "pow2 e = (if 0 \<le> e then 2 ^ nat e else 1 / 2 ^ nat (- e))"

text \<open>The nearest integer, a tie going to the even one.\<close>

definition round_half_even :: "rat \<Rightarrow> int" where
  "round_half_even q =
     (let f = \<lfloor>q\<rfloor>; r = q - of_int f
      in if r < 1 / 2 then f else if 1 / 2 < r then f + 1 else if even f then f else f + 1)"

text \<open>The position of the leading bit of a positive integer.\<close>

function ilog2 :: "int \<Rightarrow> int" where
  "ilog2 p = (if p \<le> 1 then 0 else 1 + ilog2 (p div 2))"
  by pat_completeness auto
termination
  by (relation "measure nat") auto

declare ilog2.simps [simp del]

text \<open>The binary exponent \<open>e\<close> of a positive rational \<open>a\<close>: \<open>2^e \<le> a < 2^(e+1)\<close>.\<close>

definition exponent_of :: "rat \<Rightarrow> int" where
  "exponent_of a =
     (let (p, q) = quotient_of a; d = ilog2 p - ilog2 q
      in if pow2 d \<le> a then d else d - 1)"

text \<open>
  The double nearest to a rational: the number is scaled to a significand of 53 bits,
  which is rounded to the nearest integer, ties to even.
\<close>

definition round_double :: "rat \<Rightarrow> rat" where
  "round_double x =
     (if x = 0 then 0
      else let a = \<bar>x\<bar>; u = pow2 (exponent_of a - 52)
           in sgn x * of_int (round_half_even (a / u)) * u)"

text \<open>
  The three float operations of \<open>summarize_text\<close>: \<open>c / m\<close> on two \<open>int\<close> counts,
  \<open>a + b\<close> on two floats, and \<open>n * f\<close> on an \<open>int\<close> and a float, where the \<open>int\<close> is
  converted to a float first.
\<close>

definition fl_div :: "nat \<Rightarrow> nat \<Rightarrow> rat" where
  "fl_div c m = round_double (of_nat c / of_nat m)"

definition fl_add :: "rat \<Rightarrow> rat \<Rightarrow> rat" where
  "fl_add a b = round_double (a + b)"

definition fl_mul :: "nat \<Rightarrow> rat \<Rightarrow> rat" where
  "fl_mul n f = round_double (round_double (of_nat n) * f)"

subsection \<open>Documents\<close>

record sentence =
  sent_text :: string
  sent_words :: "string list"

record doc =
  doc_words :: "string list"
  doc_sents :: "sentence list"

text \<open>
  A sentence is a dictionary key by its place in the document, not by its text: the key
  of the \<open>i\<close>-th sentence is the pair of \<open>i\<close> and the sentence.
\<close>

type_synonym span = "nat \<times> sentence"

datatype error = NoText | NoMeaningfulWords | CouldNotScore

subsection \<open>Word frequencies\<close>

text \<open>
  The test of the counting loop. \<open>punctuation\<close> is a \<open>str\<close>, so
  \<open>word_text not in punctuation\<close> is Python's substring test.
\<close>

definition counted :: "string list \<Rightarrow> string \<Rightarrow> bool" where
  "counted stop_words w =
     (let word_text = lower w
      in word_text \<notin> set stop_words \<and> \<not> sublist word_text punctuation)"

definition count_word :: "string list \<Rightarrow> (string \<times> nat) list \<Rightarrow> string \<Rightarrow> (string \<times> nat) list" where
  "count_word stop_words word_frequencies w =
     (if counted stop_words w
      then (case map_of word_frequencies w of
              None \<Rightarrow> AList.update w 1 word_frequencies
            | Some c \<Rightarrow> AList.update w (c + 1) word_frequencies)
      else word_frequencies)"

definition count_words :: "string list \<Rightarrow> string list \<Rightarrow> (string \<times> nat) list" where
  "count_words stop_words document = foldl (count_word stop_words) [] document"

text \<open>
  Normalisation: \<open>max_frequency\<close> is read once, then every value is divided by it.
  It runs only on a non-empty table.
\<close>

definition normalize :: "(string \<times> nat) list \<Rightarrow> (string \<times> rat) list" where
  "normalize word_frequencies =
     (let max_frequency = Max (set (map snd word_frequencies))
      in map (\<lambda>(word, c). (word, fl_div c max_frequency)) word_frequencies)"

subsection \<open>Sentence scores\<close>

definition score_word :: "(string \<times> rat) list \<Rightarrow> span \<Rightarrow> (span \<times> rat) list \<Rightarrow> string \<Rightarrow> (span \<times> rat) list" where
  "score_word word_frequencies sentence sentence_score w =
     (case map_of word_frequencies (lower w) of
        None \<Rightarrow> sentence_score
      | Some x \<Rightarrow>
          (case map_of sentence_score sentence of
             None \<Rightarrow> AList.update sentence x sentence_score
           | Some s \<Rightarrow> AList.update sentence (fl_add s x) sentence_score))"

definition score_sentence :: "(string \<times> rat) list \<Rightarrow> (span \<times> rat) list \<Rightarrow> span \<Rightarrow> (span \<times> rat) list" where
  "score_sentence word_frequencies sentence_score sentence =
     foldl (score_word word_frequencies sentence) sentence_score (sent_words (snd sentence))"

definition score_sentences :: "(string \<times> rat) list \<Rightarrow> span list \<Rightarrow> (span \<times> rat) list" where
  "score_sentences word_frequencies sentence_tokens =
     foldl (score_sentence word_frequencies) [] sentence_tokens"

text \<open>
  What the scoring loop reads for the tokens of one sentence: the weight of every token
  whose lower-cased text is a key of the table, in token order.
\<close>

fun looked_up :: "(string \<times> rat) list \<Rightarrow> string list \<Rightarrow> rat list" where
  "looked_up tbl [] = []"
| "looked_up tbl (w # ws) =
     (case map_of tbl (lower w) of
        None \<Rightarrow> looked_up tbl ws
      | Some x \<Rightarrow> x # looked_up tbl ws)"

text \<open>
  The value of \<open>x1 + x2 + ... + xn\<close> as the loop computes it: the first weight is stored,
  every further one is added to the running score by a float addition.
\<close>

fun float_sum :: "rat list \<Rightarrow> rat" where
  "float_sum [] = 0"
| "float_sum (x # xs) = foldl fl_add x xs"

subsection \<open>Selection\<close>

text \<open>\<open>int(x)\<close> truncates towards zero.\<close>

definition py_int :: "rat \<Rightarrow> int" where
  "py_int x = (if 0 \<le> x then \<lfloor>x\<rfloor> else \<lceil>x\<rceil>)"

text \<open>
  \<open>max(1, int(len(sentence_tokens) * summary_length))\<close>. The argument \<open>summary_length\<close>
  is a float: the number the caller wrote is read as the nearest double, as Python reads a
  literal such as \<open>0.7\<close>.
\<close>

definition select_length :: "nat \<Rightarrow> rat \<Rightarrow> int" where
  "select_length n summary_length = max 1 (py_int (fl_mul n (round_double summary_length)))"

text \<open>
  \<open>heapq.nlargest(n, iterable, key)\<close> returns what
  \<open>sorted(iterable, key=key, reverse=True)[:n]\<close> returns; that sort is stable, so
  elements with equal keys stay in the order of the iterable.
\<close>

definition nlargest :: "int \<Rightarrow> 'a list \<Rightarrow> ('a \<Rightarrow> rat) \<Rightarrow> 'a list" where
  "nlargest n iterable key = take (nat n) (sort_key (\<lambda>x. - key x) iterable)"

text \<open>
  \<open>sentence_score.get\<close>, called by \<open>nlargest\<close> on keys of the dictionary only.
\<close>

definition score_get :: "(span \<times> rat) list \<Rightarrow> span \<Rightarrow> rat" where
  "score_get sentence_score s = (case map_of sentence_score s of Some x \<Rightarrow> x | None \<Rightarrow> 0)"

definition select_sentences :: "(span \<times> rat) list \<Rightarrow> nat \<Rightarrow> rat \<Rightarrow> span list" where
  "select_sentences sentence_score n summary_length =
     nlargest (select_length n summary_length) (map fst sentence_score) (score_get sentence_score)"

subsection \<open>The function\<close>

definition sentence_tokens_of :: "doc \<Rightarrow> span list" where
  "sentence_tokens_of document = enumerate 0 (doc_sents document)"

definition word_weights :: "string list \<Rightarrow> doc \<Rightarrow> (string \<times> rat) list" where
  "word_weights stop_words document = normalize (count_words stop_words (doc_words document))"

definition sentence_scores :: "string list \<Rightarrow> doc \<Rightarrow> (span \<times> rat) list" where
  "sentence_scores stop_words document =
     score_sentences (word_weights stop_words document) (sentence_tokens_of document)"

definition summary_sentences :: "string list \<Rightarrow> doc \<Rightarrow> rat \<Rightarrow> span list" where
  "summary_sentences stop_words document summary_length =
     select_sentences (sentence_scores stop_words document)
       (length (sentence_tokens_of document)) summary_length"

definition summarize_text ::
  "string list \<Rightarrow> (string \<Rightarrow> doc) \<Rightarrow> string \<Rightarrow> rat \<Rightarrow> error + (string \<times> sentence list)" where
  "summarize_text stop_words nlp text summary_length =
     (if strip text = [] then Inl NoText
      else
        let document = nlp text in
        if count_words stop_words (doc_words document) = [] then Inl NoMeaningfulWords
        else if sentence_scores stop_words document = [] then Inl CouldNotScore
        else
          let final_summary =
                map (\<lambda>s. sent_text (snd s)) (summary_sentences stop_words document summary_length)
          in Inr (join_space final_summary, doc_sents document))"

subsection \<open>Worked documents\<close>

text \<open>
  A pipeline that answers one document whatever the text: it stands for \<open>nlp\<close> on the
  text of an example.
\<close>

definition fixed_nlp :: "doc \<Rightarrow> string \<Rightarrow> doc" where
  "fixed_nlp document text = document"

text \<open>The text \<open>Cats\<close>: one sentence of one capitalised token.\<close>

definition cats_doc :: doc where
  "cats_doc = \<lparr>doc_words = [''Cats''],
               doc_sents = [\<lparr>sent_text = ''Cats'', sent_words = [''Cats'']\<rparr>]\<rparr>"

text \<open>The text \<open>Wow. it works.\<close> with the stop word \<open>it\<close>.\<close>

definition wow_doc :: doc where
  "wow_doc = \<lparr>doc_words = [''Wow'', ''.'', ''it'', ''works'', ''.''],
              doc_sents = [\<lparr>sent_text = ''Wow.'', sent_words = [''Wow'', ''.'']\<rparr>,
                           \<lparr>sent_text = ''it works.'', sent_words = [''it'', ''works'', ''.'']\<rparr>]\<rparr>"

text \<open>The text \<open>the of.\<close>, all of whose tokens are stop words or punctuation.\<close>

definition stop_doc :: doc where
  "stop_doc = \<lparr>doc_words = [''the'', ''of'', ''.''],
               doc_sents = [\<lparr>sent_text = ''the of.'', sent_words = [''the'', ''of'', ''.'']\<rparr>]\<rparr>"

text \<open>
  Four sentences \<open>bee\<close>, \<open>cat dog elk\<close>, \<open>ox\<close>, \<open>ox ox ox ox bee bee\<close>. The weight of
  \<open>bee\<close> is the double \<open>0.6\<close>, the weights of \<open>cat\<close>, \<open>dog\<close> and \<open>elk\<close> are the double
  \<open>0.2\<close>, and \<open>0.2 + 0.2 + 0.2\<close> is the double above \<open>0.6\<close>.
\<close>

definition zoo_doc :: doc where
  "zoo_doc = \<lparr>doc_words = [''bee'', ''cat'', ''dog'', ''elk'', ''ox'',
                          ''ox'', ''ox'', ''ox'', ''ox'', ''bee'', ''bee''],
              doc_sents = [\<lparr>sent_text = ''bee'', sent_words = [''bee'']\<rparr>,
                           \<lparr>sent_text = ''cat dog elk'', sent_words = [''cat'', ''dog'', ''elk'']\<rparr>,
                           \<lparr>sent_text = ''ox'', sent_words = [''ox'']\<rparr>,
                           \<lparr>sent_text = ''ox ox ox ox bee bee'',
                              sent_words = [''ox'', ''ox'', ''ox'', ''ox'', ''bee'', ''bee'']\<rparr>]\<rparr>"

text \<open>
  Four sentences \<open>jog\<close>, \<open>run run\<close>, \<open>jog\<close>, \<open>sit\<close>: the first and the third
  get the same score, the second the highest.
\<close>

definition tie_doc :: doc where
  "tie_doc = \<lparr>doc_words = [''jog'', ''run'', ''run'', ''jog'', ''sit''],
              doc_sents = [\<lparr>sent_text = ''jog'', sent_words = [''jog'']\<rparr>,
                           \<lparr>sent_text = ''run run'', sent_words = [''run'', ''run'']\<rparr>,
                           \<lparr>sent_text = ''jog'', sent_words = [''jog'']\<rparr>,
                           \<lparr>sent_text = ''sit'', sent_words = [''sit'']\<rparr>]\<rparr>"

section \<open>Properties\<close>

subsection \<open>Strings: facts\<close>

lemma lower_char_idem: "lower_char (lower_char c) = lower_char c"
proof -
  let ?n = "of_char c :: nat"
  have "?n < 256" by simp
  then show ?thesis
    by (auto simp: lower_char_def Let_def)
qed

lemma lower_idem: "lower (lower s) = lower s"
  by (simp add: lower_def lower_char_idem)

lemma dropWhile_all_iff: "(\<forall>c\<in>set (dropWhile P s). P c) \<longleftrightarrow> dropWhile P s = []"
proof
  assume all: "\<forall>c\<in>set (dropWhile P s). P c"
  show "dropWhile P s = []"
  proof (rule ccontr)
    assume ne: "dropWhile P s \<noteq> []"
    then have "\<not> P (hd (dropWhile P s))" by (rule hd_dropWhile)
    moreover have "hd (dropWhile P s) \<in> set (dropWhile P s)" using ne by (rule hd_in_set)
    ultimately show False using all by blast
  qed
next
  assume "dropWhile P s = []"
  then show "\<forall>c\<in>set (dropWhile P s). P c" by (simp only: set_simps ball_empty)
qed

lemma strip_empty_iff: "strip s = [] \<longleftrightarrow> (\<forall>c\<in>set s. is_space c)"
proof -
  have "strip s = [] \<longleftrightarrow> dropWhile is_space (rev (dropWhile is_space s)) = []"
    by (simp only: strip_def rev_is_Nil_conv)
  also have "\<dots> \<longleftrightarrow> (\<forall>c\<in>set (dropWhile is_space s). is_space c)"
    by (simp only: dropWhile_eq_Nil_conv set_rev)
  also have "\<dots> \<longleftrightarrow> dropWhile is_space s = []"
    by (rule dropWhile_all_iff)
  also have "\<dots> \<longleftrightarrow> (\<forall>c\<in>set s. is_space c)"
    by (simp only: dropWhile_eq_Nil_conv)
  finally show ?thesis .
qed

lemma single_punctuation: "c \<in> set punctuation \<Longrightarrow> sublist [c] punctuation"
proof -
  assume "c \<in> set punctuation"
  then obtain ps ss where "punctuation = ps @ c # ss" by (auto simp: in_set_conv_decomp)
  then have "punctuation = ps @ [c] @ ss" by simp
  then show ?thesis unfolding sublist_def by blast
qed

lemma lower_punctuation_char:
  assumes "c \<in> set punctuation"
  shows "lower [c] = [c]"
proof -
  have "set punctuation = char_of ` ({33..<48} \<union> {58..<65} \<union> {91..<97} \<union> {123..<127} :: nat set)"
    by (simp only: punctuation_def set_map set_append set_upt Un_assoc)
  with assms obtain n :: nat where c: "c = char_of n"
    and mem: "n \<in> {33..<48} \<union> {58..<65} \<union> {91..<97} \<union> {123..<127}"
    by blast
  from mem have n: "(33 \<le> n \<and> n < 48) \<or> (58 \<le> n \<and> n < 65) \<or> (91 \<le> n \<and> n < 97) \<or> (123 \<le> n \<and> n < 127)"
    by simp
  from n have "n mod 256 = n" by auto
  with n have "lower_char (char_of n) = char_of n"
    by (auto simp: lower_char_def)
  then show ?thesis by (simp add: lower_def c)
qed

subsection \<open>Dictionaries: facts\<close>

lemma update_absent: "k \<notin> fst ` set al \<Longrightarrow> AList.update k v al = al @ [(k, v)]"
  by (induction al) auto


lemma map_of_filter_keys:
  "map_of (filter (\<lambda>(k, x). P k) tbl) k = (if P k then map_of tbl k else None)"
  by (induction tbl) auto

subsection \<open>Counting: facts\<close>

lemma distinct_count_word:
  "distinct (map fst tbl) \<Longrightarrow> distinct (map fst (count_word stop_words tbl w))"
  by (simp add: count_word_def distinct_update split: option.splits)

lemma distinct_foldl_count_word:
  "distinct (map fst tbl) \<Longrightarrow> distinct (map fst (foldl (count_word stop_words) tbl ws))"
  by (induction ws arbitrary: tbl) (simp_all add: distinct_count_word)

lemma distinct_count_words: "distinct (map fst (count_words stop_words ws))"
  by (simp add: count_words_def distinct_foldl_count_word)

lemma map_of_count_word:
  "map_of (count_word stop_words tbl w) =
     (if counted stop_words w
      then (map_of tbl)(w \<mapsto> (case map_of tbl w of None \<Rightarrow> 1 | Some c \<Rightarrow> c + 1))
      else map_of tbl)"
  by (simp add: count_word_def update_conv' split: option.splits)

lemma count_word_changes:
  assumes "counted stop_words w"
  shows "count_word stop_words tbl w \<noteq> tbl"
proof
  assume same: "count_word stop_words tbl w = tbl"
  have "map_of (count_word stop_words tbl w) w =
          Some (case map_of tbl w of None \<Rightarrow> 1 | Some c \<Rightarrow> c + 1)"
    using assms by (simp add: map_of_count_word)
  then show False unfolding same by (cases "map_of tbl w") simp_all
qed

lemma map_of_foldl_count_word:
  "map_of (foldl (count_word stop_words) tbl ws) w =
     (if counted stop_words w \<and> w \<in> set ws
      then Some ((case map_of tbl w of None \<Rightarrow> 0 | Some c \<Rightarrow> c) + count_list ws w)
      else map_of tbl w)"
proof (induction ws arbitrary: tbl)
  case Nil
  then show ?case by simp
next
  case (Cons v ws)
  show ?case
    by (simp add: Cons.IH map_of_count_word count_list_0_iff split: option.splits)
qed

lemma map_of_count_words:
  "map_of (count_words stop_words ws) w =
     (if counted stop_words w \<and> w \<in> set ws then Some (count_list ws w) else None)"
  by (simp add: count_words_def map_of_foldl_count_word)

lemma keys_count_words:
  "fst ` set (count_words stop_words ws) = {w \<in> set ws. counted stop_words w}"
proof -
  have "w \<in> fst ` set (count_words stop_words ws) \<longleftrightarrow> w \<in> set ws \<and> counted stop_words w" for w
    using map_of_eq_None_iff [of "count_words stop_words ws" w]
    by (auto simp: map_of_count_words split: if_splits)
  then show ?thesis by blast
qed

lemma count_words_Nil_iff:
  "count_words stop_words ws = [] \<longleftrightarrow> (\<forall>w\<in>set ws. \<not> counted stop_words w)"
proof -
  have "count_words stop_words ws = [] \<longleftrightarrow> fst ` set (count_words stop_words ws) = {}"
    by simp
  then show ?thesis unfolding keys_count_words by blast
qed

lemma count_words_entry:
  assumes "(w, c) \<in> set (count_words stop_words ws)"
  shows "c = count_list ws w \<and> w \<in> set ws \<and> counted stop_words w \<and> 0 < c"
proof -
  have "map_of (count_words stop_words ws) w = Some c"
    using assms distinct_count_words by (simp add: map_of_eq_Some_iff)
  then have "c = count_list ws w \<and> w \<in> set ws \<and> counted stop_words w"
    by (simp add: map_of_count_words split: if_splits)
  moreover from this have "0 < count_list ws w"
    by (metis count_list_0_iff gr0I)
  ultimately show ?thesis by simp
qed

lemma count_words_positive: "\<forall>(w, c) \<in> set (count_words stop_words ws). 0 < c"
  using count_words_entry by blast

subsection \<open>Floating point: facts\<close>

lemma pow2_powi: "pow2 e = 2 powi e"
  by (simp add: pow2_def power_int_def power_one_over inverse_eq_divide)

lemma pow2_pos: "0 < pow2 e"
  by (simp add: pow2_powi)

lemma pow2_add: "pow2 (a + b) = pow2 a * pow2 b"
  by (simp add: pow2_powi power_int_add)

lemma pow2_Suc: "pow2 (e + 1) = 2 * pow2 e"
  by (simp add: pow2_add) (simp add: pow2_def)

lemma pow2_mono: "a \<le> b \<Longrightarrow> pow2 a \<le> pow2 b"
  by (simp add: pow2_powi power_int_increasing)

lemma pow2_nat: "pow2 (int n) = 2 ^ n"
  by (simp add: pow2_def)

lemma ilog2_bounds: "1 \<le> p \<Longrightarrow> 0 \<le> ilog2 p \<and> 2 ^ nat (ilog2 p) \<le> p \<and> p < 2 * 2 ^ nat (ilog2 p)"
proof (induction p rule: ilog2.induct)
  case (1 p)
  show ?case
  proof (cases "p \<le> 1")
    case True
    with "1.prems" have "p = 1" by simp
    then show ?thesis by (simp add: ilog2.simps [of 1])
  next
    case False
    then have half: "1 \<le> p div 2" by simp
    from "1.IH" [OF False half]
    have ih: "0 \<le> ilog2 (p div 2)" "2 ^ nat (ilog2 (p div 2)) \<le> p div 2"
      "p div 2 < 2 * 2 ^ nat (ilog2 (p div 2))" by simp_all
    have eq: "ilog2 p = 1 + ilog2 (p div 2)" using False by (subst ilog2.simps) simp
    have nat_eq: "nat (ilog2 p) = Suc (nat (ilog2 (p div 2)))" using eq ih(1) by simp
    have "2 * (p div 2) \<le> p" by simp
    moreover have "p < 2 * (p div 2) + 2" by presburger
    ultimately show ?thesis using ih eq unfolding nat_eq by simp
  qed
qed

lemma ilog2_pow2: "1 \<le> p \<Longrightarrow> pow2 (ilog2 p) \<le> of_int p \<and> of_int p < pow2 (ilog2 p + 1)"
proof -
  assume "1 \<le> p"
  from ilog2_bounds [OF this]
  have nn: "0 \<le> ilog2 p" and lo: "2 ^ nat (ilog2 p) \<le> p" and hi: "p < 2 * 2 ^ nat (ilog2 p)"
    by simp_all
  have p2: "pow2 (ilog2 p) = 2 ^ nat (ilog2 p)" using nn by (simp add: pow2_def)
  have "(of_int (2 ^ nat (ilog2 p)) :: rat) \<le> of_int p" using lo by (simp only: of_int_le_iff)
  moreover have "(of_int p :: rat) < of_int (2 * 2 ^ nat (ilog2 p))" using hi by (simp only: of_int_less_iff)
  ultimately show ?thesis unfolding pow2_Suc p2 by simp
qed

lemma exponent_bounds:
  assumes "0 < a"
  shows "pow2 (exponent_of a) \<le> a \<and> a < pow2 (exponent_of a + 1)"
proof -
  obtain p q where pq: "quotient_of a = (p, q)" by (cases "quotient_of a")
  then have q: "0 < q" by (rule quotient_of_denom_pos)
  have a: "a = of_int p / of_int q" using pq by (rule quotient_of_div)
  have p: "0 < p" using assms q unfolding a by (simp add: zero_less_divide_iff)
  let ?d = "ilog2 p - ilog2 q"
  from ilog2_pow2 [of p] p have P: "pow2 (ilog2 p) \<le> of_int p" "of_int p < pow2 (ilog2 p + 1)" by simp_all
  from ilog2_pow2 [of q] q have Q: "pow2 (ilog2 q) \<le> of_int q" "of_int q < pow2 (ilog2 q + 1)" by simp_all
  have qpos: "(0::rat) < of_int q" using q by simp
  have upper: "a < pow2 (?d + 1)"
  proof -
    have "a < pow2 (ilog2 p + 1) / of_int q" unfolding a using P(2) qpos by (simp add: divide_strict_right_mono)
    also have "\<dots> \<le> pow2 (ilog2 p + 1) / pow2 (ilog2 q)"
      using Q(1) pow2_pos [of "ilog2 q"] pow2_pos [of "ilog2 p + 1"] by (simp add: frac_le)
    also have "\<dots> = pow2 (?d + 1)"
      using pow2_add [of "?d + 1" "ilog2 q"] pow2_pos [of "ilog2 q"] by (simp add: field_simps)
    finally show ?thesis .
  qed
  have lower: "pow2 (?d - 1) \<le> a"
  proof -
    have "pow2 (?d - 1) = pow2 (ilog2 p) / pow2 (ilog2 q + 1)"
      using pow2_add [of "?d - 1" "ilog2 q + 1"] pow2_pos [of "ilog2 q + 1"] by (simp add: field_simps)
    also have "\<dots> \<le> of_int p / of_int q"
      using P(1) Q(2) qpos pow2_pos [of "ilog2 p"] by (intro frac_le) simp_all
    finally show ?thesis unfolding a .
  qed
  show ?thesis
  proof (cases "pow2 ?d \<le> a")
    case True
    then have "exponent_of a = ?d" by (simp add: exponent_of_def pq)
    with True upper show ?thesis by simp
  next
    case False
    then have "exponent_of a = ?d - 1" by (simp add: exponent_of_def pq)
    with False lower show ?thesis by simp
  qed
qed

lemma exponent_mono:
  assumes "0 < a" and "a \<le> b"
  shows "exponent_of a \<le> exponent_of b"
proof (rule ccontr)
  assume "\<not> exponent_of a \<le> exponent_of b"
  then have "exponent_of b + 1 \<le> exponent_of a" by simp
  then have "pow2 (exponent_of b + 1) \<le> pow2 (exponent_of a)" by (rule pow2_mono)
  moreover have "b < pow2 (exponent_of b + 1)" using exponent_bounds [of b] assms by simp
  moreover have "pow2 (exponent_of a) \<le> a" using exponent_bounds [OF assms(1)] by simp
  ultimately show False using assms(2) by linarith
qed

lemma round_half_even_int: "round_half_even (of_int n) = n"
  by (simp add: round_half_even_def)

lemma round_half_even_mono: "q \<le> r \<Longrightarrow> round_half_even q \<le> round_half_even r"
proof -
  assume le: "q \<le> r"
  have fl: "\<lfloor>q\<rfloor> \<le> \<lfloor>r\<rfloor>" using le by (rule floor_mono)
  have lo: "\<lfloor>x\<rfloor> \<le> round_half_even x" and hi: "round_half_even x \<le> \<lfloor>x\<rfloor> + 1" for x
    by (simp_all add: round_half_even_def Let_def)
  show ?thesis
  proof (cases "\<lfloor>q\<rfloor> = \<lfloor>r\<rfloor>")
    case True
    then have frac: "q - of_int \<lfloor>r\<rfloor> \<le> r - of_int \<lfloor>r\<rfloor>" using le by simp
    consider "q - of_int \<lfloor>r\<rfloor> < 1 / 2" | "1 / 2 < q - of_int \<lfloor>r\<rfloor>"
      | "q - of_int \<lfloor>r\<rfloor> = 1 / 2" by linarith
    then show ?thesis
    proof cases
      case 1
      then have "round_half_even q = \<lfloor>r\<rfloor>" by (simp add: round_half_even_def Let_def True)
      then show ?thesis using lo [of r] by simp
    next
      case 2
      then have "1 / 2 < r - of_int \<lfloor>r\<rfloor>" using frac by linarith
      with 2 have "round_half_even q = \<lfloor>r\<rfloor> + 1" "round_half_even r = \<lfloor>r\<rfloor> + 1"
        by (simp_all add: round_half_even_def Let_def True)
      then show ?thesis by simp
    next
      case 3
      show ?thesis
      proof (cases "r - of_int \<lfloor>r\<rfloor> = 1 / 2")
        case same: True
        with 3 have "round_half_even q = round_half_even r"
          by (simp add: round_half_even_def Let_def True)
        then show ?thesis by simp
      next
        case False
        with 3 frac have "1 / 2 < r - of_int \<lfloor>r\<rfloor>" by linarith
        then have "round_half_even r = \<lfloor>r\<rfloor> + 1" by (simp add: round_half_even_def Let_def)
        then show ?thesis using hi [of q] True by simp
      qed
    qed
  next
    case False
    then have "\<lfloor>q\<rfloor> + 1 \<le> \<lfloor>r\<rfloor>" using fl by simp
    then show ?thesis using hi [of q] lo [of r] by linarith
  qed
qed

lemma round_double_pos:
  assumes "0 < x"
  shows "round_double x = of_int (round_half_even (x / pow2 (exponent_of x - 52))) * pow2 (exponent_of x - 52)"
  using assms by (simp add: round_double_def Let_def)

lemma round_double_bounds:
  assumes "0 < x"
  shows "pow2 (exponent_of x) \<le> round_double x \<and> round_double x \<le> pow2 (exponent_of x + 1)"
proof -
  let ?e = "exponent_of x"
  let ?u = "pow2 (?e - 52)"
  have u: "0 < ?u" by (rule pow2_pos)
  have c52: "pow2 52 = 2 ^ 52" and c53: "pow2 53 = 2 ^ 53" by (simp_all add: pow2_def)
  have "52 + (?e - 52) = ?e" "53 + (?e - 52) = ?e + 1" by simp_all
  then have e: "pow2 ?e = 2 ^ 52 * ?u" and e1: "pow2 (?e + 1) = 2 ^ 53 * ?u"
    using pow2_add [of 52 "?e - 52"] pow2_add [of 53 "?e - 52"] unfolding c52 c53
    by (simp_all only:)
  from exponent_bounds [OF assms] have "2 ^ 52 * ?u \<le> x" "x < 2 ^ 53 * ?u" unfolding e e1 by simp_all
  then have scaled: "of_int (2 ^ 52) \<le> x / ?u" "x / ?u \<le> of_int (2 ^ 53)"
    using u by (simp_all add: pos_le_divide_eq pos_divide_le_eq)
  have "round_half_even (of_int (2 ^ 52)) \<le> round_half_even (x / ?u)"
    "round_half_even (x / ?u) \<le> round_half_even (of_int (2 ^ 53))"
    using scaled by (simp_all only: round_half_even_mono)
  then have "2 ^ 52 \<le> round_half_even (x / ?u)" "round_half_even (x / ?u) \<le> 2 ^ 53"
    unfolding round_half_even_int by simp_all
  then have "(of_int (2 ^ 52) :: rat) \<le> of_int (round_half_even (x / ?u))"
    "(of_int (round_half_even (x / ?u)) :: rat) \<le> of_int (2 ^ 53)"
    by (simp_all only: of_int_le_iff)
  then have "2 ^ 52 * ?u \<le> of_int (round_half_even (x / ?u)) * ?u"
    "of_int (round_half_even (x / ?u)) * ?u \<le> 2 ^ 53 * ?u"
    using u by simp_all
  then show ?thesis unfolding round_double_pos [OF assms] e e1 by simp
qed

lemma round_double_positive: "0 < x \<Longrightarrow> 0 < round_double x"
  using round_double_bounds [of x] pow2_pos [of "exponent_of x"] by linarith

lemma round_double_mono_pos:
  assumes "0 < x" and "x \<le> y"
  shows "round_double x \<le> round_double y"
proof -
  have y: "0 < y" using assms by simp
  have le: "exponent_of x \<le> exponent_of y" using assms by (rule exponent_mono)
  show ?thesis
  proof (cases "exponent_of x = exponent_of y")
    case True
    let ?u = "pow2 (exponent_of y - 52)"
    have u: "0 < ?u" by (rule pow2_pos)
    have "x / ?u \<le> y / ?u" using assms(2) u by (simp add: divide_right_mono)
    then have "round_half_even (x / ?u) \<le> round_half_even (y / ?u)" by (rule round_half_even_mono)
    then have "(of_int (round_half_even (x / ?u)) :: rat) \<le> of_int (round_half_even (y / ?u))"
      by (simp only: of_int_le_iff)
    then show ?thesis unfolding round_double_pos [OF assms(1)] round_double_pos [OF y] True
      using u by simp
  next
    case False
    then have "exponent_of x + 1 \<le> exponent_of y" using le by simp
    then have "pow2 (exponent_of x + 1) \<le> pow2 (exponent_of y)" by (rule pow2_mono)
    then show ?thesis
      using round_double_bounds [OF assms(1)] round_double_bounds [OF y] by linarith
  qed
qed

lemma round_double_minus: "round_double (- x) = - round_double x"
  by (simp add: round_double_def Let_def)

lemma round_double_zero: "round_double 0 = 0"
  by (simp add: round_double_def)

lemma round_double_mono: "x \<le> y \<Longrightarrow> round_double x \<le> round_double y"
proof -
  assume le: "x \<le> y"
  consider "0 < x" | "x \<le> 0" "0 \<le> y" | "y < 0" by linarith
  then show ?thesis
  proof cases
    case 1
    then show ?thesis using le by (rule round_double_mono_pos)
  next
    case 2
    have "round_double x \<le> 0"
    proof (cases "x = 0")
      case True then show ?thesis by (simp add: round_double_zero)
    next
      case False
      then have "0 < - x" using 2 by simp
      then have "0 < round_double (- x)" by (rule round_double_positive)
      then show ?thesis by (simp add: round_double_minus)
    qed
    moreover have "0 \<le> round_double y"
    proof (cases "y = 0")
      case True then show ?thesis by (simp add: round_double_zero)
    next
      case False
      then have "0 < y" using 2 by simp
      then have "0 < round_double y" by (rule round_double_positive)
      then show ?thesis by simp
    qed
    ultimately show ?thesis by simp
  next
    case 3
    then have "0 < - y" "- y \<le> - x" using le by simp_all
    then have "round_double (- y) \<le> round_double (- x)" by (rule round_double_mono_pos)
    then show ?thesis by (simp add: round_double_minus)
  qed
qed

lemma round_double_one: "round_double 1 = 1"
  by code_simp

lemma round_double_nonneg: "0 \<le> x \<Longrightarrow> 0 \<le> round_double x"
  using round_double_mono [of 0 x] by (simp add: round_double_zero)

lemma pow2_strict_mono: "a < b \<Longrightarrow> pow2 a < pow2 b"
  by (simp add: pow2_powi power_int_strict_increasing)

text \<open>An integer below \<open>2^53\<close> is a double.\<close>

lemma round_double_nat:
  assumes "n < 2 ^ 53"
  shows "round_double (of_nat n) = of_nat n"
proof (cases "n = 0")
  case True
  then show ?thesis by (simp add: round_double_zero)
next
  case False
  let ?x = "of_nat n :: rat"
  let ?e = "exponent_of ?x"
  have x: "0 < ?x" using False by simp
  have "?x < of_nat (2 ^ 53)" using assms by (simp only: of_nat_less_iff)
  then have "?x < pow2 53" by (simp add: pow2_def)
  moreover have "pow2 ?e \<le> ?x" using exponent_bounds [OF x] by simp
  ultimately have "pow2 ?e < pow2 53" by linarith
  then have e: "?e \<le> 52"
    using pow2_mono [of 53 ?e] by (cases "?e \<le> 52") simp_all
  define k where "k = nat (52 - ?e)"
  have u: "pow2 (?e - 52) = 1 / 2 ^ k"
  proof (cases "?e = 52")
    case True
    then show ?thesis by (simp add: pow2_def k_def)
  next
    case False
    with e have "?e - 52 < 0" by simp
    then show ?thesis by (simp add: pow2_def k_def)
  qed
  have scaled: "?x / pow2 (?e - 52) = of_int (int n * 2 ^ k)"
    unfolding u by simp
  have "round_double ?x = of_int (round_half_even (?x / pow2 (?e - 52))) * pow2 (?e - 52)"
    using x by (rule round_double_pos)
  also have "\<dots> = of_int (int n * 2 ^ k) * pow2 (?e - 52)"
    by (simp only: scaled round_half_even_int)
  also have "\<dots> = ?x" unfolding u by simp
  finally show ?thesis .
qed

lemma fl_div_range:
  assumes "0 < c" and "c \<le> m"
  shows "0 < fl_div c m \<and> fl_div c m \<le> 1"
proof -
  have m: "0 < m" using assms by simp
  have pos: "0 < (of_nat c / of_nat m :: rat)" using assms m by simp
  have "(of_nat c :: rat) \<le> of_nat m" using assms(2) by simp
  then have le: "(of_nat c / of_nat m :: rat) \<le> 1" using m by (simp add: divide_le_eq_1)
  have "round_double (of_nat c / of_nat m) \<le> round_double 1" using le by (rule round_double_mono)
  then show ?thesis using round_double_positive [OF pos] by (simp add: fl_div_def round_double_one)
qed

lemma fl_div_same: "0 < m \<Longrightarrow> fl_div m m = 1"
  by (simp add: fl_div_def round_double_one)

lemma fl_add_positive: "0 < a \<Longrightarrow> 0 < b \<Longrightarrow> 0 < fl_add a b"
  unfolding fl_add_def by (rule round_double_positive) simp

lemma fl_mul_mono: "f \<le> g \<Longrightarrow> fl_mul n f \<le> fl_mul n g"
proof -
  assume "f \<le> g"
  moreover have "0 \<le> round_double (of_nat n)" by (rule round_double_nonneg) simp
  ultimately have "round_double (of_nat n) * f \<le> round_double (of_nat n) * g"
    by (rule mult_left_mono)
  then show ?thesis unfolding fl_mul_def by (rule round_double_mono)
qed

lemma fl_mul_nonneg: "0 \<le> f \<Longrightarrow> 0 \<le> fl_mul n f"
proof -
  assume "0 \<le> f"
  moreover have "0 \<le> round_double (of_nat n)" by (rule round_double_nonneg) simp
  ultimately have "0 \<le> round_double (of_nat n) * f" by simp
  then show ?thesis unfolding fl_mul_def by (rule round_double_nonneg)
qed

lemma fl_mul_one: "n < 2 ^ 53 \<Longrightarrow> fl_mul n 1 = of_nat n"
  by (simp add: fl_mul_def round_double_nat)

subsection \<open>Normalisation: facts\<close>

lemma normalize_keys: "map fst (normalize tbl) = map fst tbl"
  by (simp add: normalize_def case_prod_unfold comp_def)

lemma normalize_entry:
  "(w, x) \<in> set (normalize tbl) \<longleftrightarrow>
     (\<exists>c. (w, c) \<in> set tbl \<and> x = fl_div c (Max (set (map snd tbl))))"
  by (auto simp: normalize_def)

lemma max_frequency_bounds:
  assumes "(w, c) \<in> set tbl"
  shows "c \<le> Max (set (map snd tbl))"
proof -
  have "c \<in> set (map snd tbl)" using assms by force
  then show ?thesis by (simp only: Max_ge List.finite_set)
qed

lemma max_frequency_attained:
  assumes "tbl \<noteq> []"
  shows "\<exists>w. (w, Max (set (map snd tbl))) \<in> set tbl"
proof -
  have "set (map snd tbl) \<noteq> {}" using assms by simp
  then have "Max (set (map snd tbl)) \<in> set (map snd tbl)"
    by (rule Max_in [OF List.finite_set])
  then show ?thesis by auto
qed

lemma normalize_range:
  assumes pos: "\<forall>(w, c) \<in> set tbl. 0 < c" and mem: "(w, x) \<in> set (normalize tbl)"
  shows "0 < x \<and> x \<le> 1"
proof -
  let ?m = "Max (set (map snd tbl))"
  from mem obtain c where c: "(w, c) \<in> set tbl" and x: "x = fl_div c ?m"
    by (auto simp: normalize_entry)
  have "0 < c" using pos c by auto
  moreover have "c \<le> ?m" using c by (rule max_frequency_bounds)
  ultimately show ?thesis unfolding x by (rule fl_div_range)
qed

lemma normalize_max:
  assumes pos: "\<forall>(w, c) \<in> set tbl. 0 < c" and ne: "tbl \<noteq> []"
  shows "Max (set (map snd (normalize tbl))) = 1"
proof (rule Max_eqI)
  show "finite (set (map snd (normalize tbl)))" by (rule List.finite_set)
next
  fix y assume "y \<in> set (map snd (normalize tbl))"
  then obtain w where "(w, y) \<in> set (normalize tbl)" by auto
  then show "y \<le> 1" using normalize_range [OF pos] by blast
next
  let ?m = "Max (set (map snd tbl))"
  obtain w where w: "(w, ?m) \<in> set tbl" using max_frequency_attained [OF ne] by blast
  then have "0 < ?m" using pos by auto
  then have one: "fl_div ?m ?m = 1" by (rule fl_div_same)
  have "(w, fl_div ?m ?m) \<in> set (normalize tbl)"
    unfolding normalize_entry using w by blast
  then have "(w, 1) \<in> set (normalize tbl)" by (simp only: one)
  then show "1 \<in> set (map snd (normalize tbl))" by force
qed

lemma normalize_most_frequent:
  assumes pos: "\<forall>(w, c) \<in> set tbl. 0 < c" and dist: "distinct (map fst tbl)"
    and mem: "(w, Max (set (map snd tbl))) \<in> set tbl"
  shows "map_of (normalize tbl) w = Some 1"
proof -
  let ?m = "Max (set (map snd tbl))"
  have "0 < ?m" using pos mem by auto
  then have one: "fl_div ?m ?m = 1" by (rule fl_div_same)
  have "(w, fl_div ?m ?m) \<in> set (normalize tbl)"
    unfolding normalize_entry using mem by blast
  then have "(w, 1) \<in> set (normalize tbl)" by (simp only: one)
  moreover have "distinct (map fst (normalize tbl))" using dist by (simp only: normalize_keys)
  ultimately show ?thesis by (simp only: map_of_eq_Some_iff)
qed

lemma word_weights_positive: "\<forall>(w, x) \<in> set (word_weights stop_words document). 0 < x"
proof -
  have "\<forall>(w, c) \<in> set (count_words stop_words (doc_words document)). 0 < c"
    by (rule count_words_positive)
  from normalize_range [OF this] show ?thesis unfolding word_weights_def by blast
qed

subsection \<open>Scoring: facts\<close>

lemma looked_up_Nil_iff:
  "looked_up tbl ws = [] \<longleftrightarrow> (\<forall>w\<in>set ws. lower w \<notin> fst ` set tbl)"
  by (induction ws) (simp_all add: map_of_eq_None_iff [symmetric] split: option.splits)


lemma looked_up_values: "set (looked_up tbl ws) \<subseteq> snd ` set tbl"
proof (induction ws)
  case Nil
  show ?case by simp
next
  case (Cons w ws)
  show ?case
  proof (cases "map_of tbl (lower w)")
    case None
    with Cons show ?thesis by simp
  next
    case (Some x)
    then have "(lower w, x) \<in> set tbl" by (rule map_of_SomeD)
    then have "x \<in> snd ` set tbl" by force
    with Cons Some show ?thesis by simp
  qed
qed

lemma foldl_fl_add_positive:
  "0 < a \<Longrightarrow> \<forall>x\<in>set xs. 0 < x \<Longrightarrow> 0 < foldl fl_add a xs"
proof (induction xs arbitrary: a)
  case Nil
  then show ?case by simp
next
  case (Cons x xs)
  have "0 < fl_add a x" using Cons.prems by (simp add: fl_add_positive)
  then show ?case using Cons.IH Cons.prems by simp
qed

lemma float_sum_positive:
  assumes "xs \<noteq> []" and "\<forall>x\<in>set xs. 0 < x"
  shows "0 < float_sum xs"
  using assms by (cases xs) (simp_all add: foldl_fl_add_positive)

lemma score_words_present:
  "map_of sc s = Some a \<Longrightarrow>
     foldl (score_word tbl s) sc ws = AList.update s (foldl fl_add a (looked_up tbl ws)) sc"
proof (induction ws arbitrary: sc a)
  case Nil
  then show ?case by (simp add: update_triv)
next
  case (Cons w ws)
  show ?case
  proof (cases "map_of tbl (lower w)")
    case None
    then have "score_word tbl s sc w = sc" by (simp add: score_word_def)
    with None Cons show ?thesis by simp
  next
    case (Some x)
    let ?sc = "AList.update s (fl_add a x) sc"
    have step: "score_word tbl s sc w = ?sc"
      using Some Cons.prems by (simp add: score_word_def)
    have "map_of ?sc s = Some (fl_add a x)" by (simp add: update_conv')
    then have "foldl (score_word tbl s) ?sc ws =
                 AList.update s (foldl fl_add (fl_add a x) (looked_up tbl ws)) ?sc"
      by (rule Cons.IH)
    then show ?thesis using Some step by simp
  qed
qed

lemma score_words_absent:
  "s \<notin> fst ` set sc \<Longrightarrow>
     foldl (score_word tbl s) sc ws =
       (if looked_up tbl ws = [] then sc else sc @ [(s, float_sum (looked_up tbl ws))])"
proof (induction ws)
  case Nil
  show ?case by simp
next
  case (Cons w ws)
  show ?case
  proof (cases "map_of tbl (lower w)")
    case None
    then have "score_word tbl s sc w = sc" by (simp add: score_word_def)
    with None Cons show ?thesis by simp
  next
    case (Some x)
    have absent: "map_of sc s = None" using Cons.prems by (simp add: map_of_eq_None_iff)
    let ?sc = "AList.update s x sc"
    have step: "score_word tbl s sc w = ?sc"
      using Some absent by (simp add: score_word_def)
    have "map_of ?sc s = Some x" by (simp add: update_conv')
    then have "foldl (score_word tbl s) ?sc ws =
                 AList.update s (foldl fl_add x (looked_up tbl ws)) ?sc"
      by (rule score_words_present)
    also have "\<dots> = AList.update s (foldl fl_add x (looked_up tbl ws)) sc" by simp
    also have "\<dots> = sc @ [(s, foldl fl_add x (looked_up tbl ws))]"
      using Cons.prems by (rule update_absent)
    finally show ?thesis using Some step by simp
  qed
qed

text \<open>The score dictionary, entry by entry and in insertion order.\<close>

lemma score_sentences_eq:
  "distinct sents \<Longrightarrow>
     score_sentences tbl sents =
       map (\<lambda>s. (s, float_sum (looked_up tbl (sent_words (snd s)))))
         (filter (\<lambda>s. looked_up tbl (sent_words (snd s)) \<noteq> []) sents)"
proof (induction sents rule: rev_induct)
  case Nil
  show ?case by (simp add: score_sentences_def)
next
  case (snoc s sents)
  let ?g = "\<lambda>s. (s, float_sum (looked_up tbl (sent_words (snd s))))"
  let ?P = "\<lambda>s. looked_up tbl (sent_words (snd s)) \<noteq> []"
  have IH: "score_sentences tbl sents = map ?g (filter ?P sents)"
    using snoc by simp
  have "fst ` set (score_sentences tbl sents) \<subseteq> set sents"
    unfolding IH by auto
  moreover have "s \<notin> set sents" using snoc.prems by simp
  ultimately have absent: "s \<notin> fst ` set (score_sentences tbl sents)" by blast
  have "score_sentences tbl (sents @ [s]) =
          foldl (score_word tbl s) (score_sentences tbl sents) (sent_words (snd s))"
    by (simp add: score_sentences_def score_sentence_def)
  also have "\<dots> = (if ?P s then score_sentences tbl sents @ [?g s] else score_sentences tbl sents)"
    using score_words_absent [OF absent] by simp
  finally show ?case unfolding IH by simp
qed

lemma distinct_sentence_tokens: "distinct (sentence_tokens_of document)"
  by (simp add: sentence_tokens_of_def)

lemma sentence_scores_eq:
  "sentence_scores stop_words document =
     map (\<lambda>s. (s, float_sum (looked_up (word_weights stop_words document) (sent_words (snd s)))))
       (filter (\<lambda>s. looked_up (word_weights stop_words document) (sent_words (snd s)) \<noteq> [])
          (sentence_tokens_of document))"
  unfolding sentence_scores_def by (rule score_sentences_eq [OF distinct_sentence_tokens])

lemma keys_sentence_scores:
  "map fst (sentence_scores stop_words document) =
     filter (\<lambda>s. looked_up (word_weights stop_words document) (sent_words (snd s)) \<noteq> [])
       (sentence_tokens_of document)"
  unfolding sentence_scores_eq by (simp add: comp_def)

lemma length_sentence_scores:
  "length (sentence_scores stop_words document) \<le> length (doc_sents document)"
proof -
  have "length (sentence_scores stop_words document) \<le> length (sentence_tokens_of document)"
    unfolding sentence_scores_eq by simp
  then show ?thesis by (simp add: sentence_tokens_of_def)
qed

lemma sentence_scores_positive: "\<forall>(s, x) \<in> set (sentence_scores stop_words document). 0 < x"
proof -
  let ?W = "word_weights stop_words document"
  have "0 < float_sum (looked_up ?W ws)" if "looked_up ?W ws \<noteq> []" for ws
  proof -
    have "\<forall>x\<in>set (looked_up ?W ws). 0 < x"
      using looked_up_values [of ?W ws] word_weights_positive [of stop_words document]
      by fastforce
    with that show ?thesis by (rule float_sum_positive)
  qed
  then show ?thesis unfolding sentence_scores_eq by auto
qed

lemma score_word_lowercase_keys:
  "score_word (filter (\<lambda>(k, x). k = lower k) tbl) = score_word tbl"
proof -
  have "map_of (filter (\<lambda>(k, x). k = lower k) tbl) (lower w) = map_of tbl (lower w)" for w
    by (simp add: map_of_filter_keys lower_idem)
  then show ?thesis by (intro ext) (simp add: score_word_def)
qed

subsection \<open>Selection: facts\<close>

lemma py_int_mono: "x \<le> y \<Longrightarrow> py_int x \<le> py_int y"
proof -
  assume le: "x \<le> y"
  consider "0 \<le> x" | "x < 0" "0 \<le> y" | "x < 0" "y < 0" by linarith
  then show ?thesis
  proof cases
    case 1
    then have "0 \<le> y" using le by simp
    with 1 le show ?thesis by (simp add: py_int_def floor_mono)
  next
    case 2
    have "\<lceil>x\<rceil> \<le> 0" using 2 by (simp add: ceiling_le_zero)
    moreover have "0 \<le> \<lfloor>y\<rfloor>" using 2 by simp
    ultimately have "\<lceil>x\<rceil> \<le> \<lfloor>y\<rfloor>" by (rule order_trans)
    then show ?thesis using 2 by (simp add: py_int_def)
  next
    case 3
    with le show ?thesis by (simp add: py_int_def ceiling_mono)
  qed
qed

lemma select_length_ge_1: "1 \<le> select_length n f"
  by (simp add: select_length_def)

lemma select_length_mono: "f1 \<le> f2 \<Longrightarrow> select_length n f1 \<le> select_length n f2"
proof -
  assume "f1 \<le> f2"
  then have "round_double f1 \<le> round_double f2" by (rule round_double_mono)
  then have "fl_mul n (round_double f1) \<le> fl_mul n (round_double f2)" by (rule fl_mul_mono)
  then have "py_int (fl_mul n (round_double f1)) \<le> py_int (fl_mul n (round_double f2))"
    by (rule py_int_mono)
  then show ?thesis by (simp add: select_length_def)
qed

lemma select_length_floor:
  "0 \<le> f \<Longrightarrow> select_length n f = max 1 \<lfloor>fl_mul n (round_double f)\<rfloor>"
proof -
  assume "0 \<le> f"
  then have "0 \<le> round_double f" by (rule round_double_nonneg)
  then have "0 \<le> fl_mul n (round_double f)" by (rule fl_mul_nonneg)
  then show ?thesis by (simp add: select_length_def py_int_def)
qed

lemma select_length_one: "n < 2 ^ 53 \<Longrightarrow> select_length n 1 = max 1 (int n)"
  by (simp add: select_length_def py_int_def round_double_one fl_mul_one)

lemma length_nlargest: "length (nlargest n xs key) = min (nat n) (length xs)"
  by (simp add: nlargest_def)

lemma set_nlargest_subset: "set (nlargest n xs key) \<subseteq> set xs"
proof -
  have "set (take (nat n) (sort_key (\<lambda>x. - key x) xs)) \<subseteq> set (sort_key (\<lambda>x. - key x) xs)"
    by (rule set_take_subset)
  then show ?thesis by (simp add: nlargest_def)
qed

lemma nlargest_all: "length xs \<le> nat n \<Longrightarrow> set (nlargest n xs key) = set xs"
  by (simp add: nlargest_def)

text \<open>
  The order of the result: a higher key first, and among equal keys the element that
  comes earlier in the iterable, when \<open>pos\<close> numbers the iterable upwards.
\<close>

lemma insort_ranked:
  fixes key :: "'a \<Rightarrow> rat" and pos :: "'a \<Rightarrow> nat"
  assumes "sorted_wrt (\<lambda>s t. key t < key s \<or> (key s = key t \<and> pos s < pos t)) ys"
    and "\<forall>y\<in>set ys. pos x < pos y"
  shows "sorted_wrt (\<lambda>s t. key t < key s \<or> (key s = key t \<and> pos s < pos t))
           (insort_key (\<lambda>x. - key x) x ys)"
  using assms
proof (induction ys)
  case Nil
  show ?case by simp
next
  case (Cons y ys)
  show ?case
  proof (cases "key y \<le> key x")
    case True
    have "key z < key x \<or> (key x = key z \<and> pos x < pos z)" if "z \<in> set (y # ys)" for z
    proof -
      have "pos x < pos z" using Cons.prems(2) that by blast
      moreover have "key z \<le> key y" using Cons.prems(1) that by auto
      ultimately show ?thesis using True by linarith
    qed
    then show ?thesis using True Cons.prems(1) by simp
  next
    case False
    have "sorted_wrt (\<lambda>s t. key t < key s \<or> (key s = key t \<and> pos s < pos t))
            (insort_key (\<lambda>x. - key x) x ys)"
      using Cons.IH Cons.prems by simp
    moreover have "\<forall>z\<in>set (insort_key (\<lambda>x. - key x) x ys).
                     key z < key y \<or> (key y = key z \<and> pos y < pos z)"
      using False Cons.prems(1) by (auto simp: set_insort_key)
    ultimately show ?thesis using False by simp
  qed
qed

lemma sort_ranked:
  fixes key :: "'a \<Rightarrow> rat" and pos :: "'a \<Rightarrow> nat"
  assumes "sorted_wrt (\<lambda>s t. pos s < pos t) xs"
  shows "sorted_wrt (\<lambda>s t. key t < key s \<or> (key s = key t \<and> pos s < pos t))
           (sort_key (\<lambda>x. - key x) xs)"
  using assms
proof (induction xs)
  case Nil
  show ?case by simp
next
  case (Cons x xs)
  have "sorted_wrt (\<lambda>s t. key t < key s \<or> (key s = key t \<and> pos s < pos t))
          (sort_key (\<lambda>x. - key x) xs)"
    using Cons by simp
  moreover have "\<forall>y\<in>set (sort_key (\<lambda>x. - key x) xs). pos x < pos y"
    using Cons.prems by simp
  ultimately show ?case by (simp add: insort_ranked)
qed

lemma nlargest_ranked:
  fixes key :: "'a \<Rightarrow> rat" and pos :: "'a \<Rightarrow> nat"
  assumes "sorted_wrt (\<lambda>s t. pos s < pos t) xs"
  shows "sorted_wrt (\<lambda>s t. key t < key s \<or> (key s = key t \<and> pos s < pos t)) (nlargest n xs key)"
    and "\<forall>t\<in>set (nlargest n xs key). \<forall>s\<in>set xs - set (nlargest n xs key).
           key s < key t \<or> (key t = key s \<and> pos t < pos s)"
proof -
  let ?R = "\<lambda>s t. key t < key s \<or> (key s = key t \<and> pos s < pos t)"
  let ?L = "sort_key (\<lambda>x. - key x) xs"
  have L: "sorted_wrt ?R (take (nat n) ?L @ drop (nat n) ?L)"
    using sort_ranked [OF assms, of key] by simp
  then show "sorted_wrt ?R (nlargest n xs key)"
    unfolding nlargest_def sorted_wrt_append by blast
  have between: "\<forall>t\<in>set (take (nat n) ?L). \<forall>s\<in>set (drop (nat n) ?L). ?R t s"
    using L unfolding sorted_wrt_append by blast
  have "set xs = set (take (nat n) ?L) \<union> set (drop (nat n) ?L)"
    using set_append [of "take (nat n) ?L" "drop (nat n) ?L"] by simp
  then show "\<forall>t\<in>set (nlargest n xs key). \<forall>s\<in>set xs - set (nlargest n xs key).
           key s < key t \<or> (key t = key s \<and> pos t < pos s)"
    using between unfolding nlargest_def by blast
qed

lemma enumerate_positions: "sorted_wrt (\<lambda>s t. fst s < fst t) (enumerate n xs)"
proof (induction xs arbitrary: n)
  case Nil
  show ?case by simp
next
  case (Cons x xs)
  have "\<forall>p\<in>set (enumerate (Suc n) xs). n < fst p"
    by (auto simp: in_set_enumerate_eq)
  then show ?case using Cons by simp
qed

lemma score_sentences_positions:
  "sorted_wrt (\<lambda>s t. fst s < fst t) (map fst (score_sentences tbl (sentence_tokens_of document)))"
proof -
  have "map fst (score_sentences tbl (sentence_tokens_of document))
          = filter (\<lambda>s. looked_up tbl (sent_words (snd s)) \<noteq> []) (sentence_tokens_of document)"
    unfolding score_sentences_eq [OF distinct_sentence_tokens] by (simp add: comp_def)
  then show ?thesis unfolding sentence_tokens_of_def
    by (simp only: sorted_wrt_filter [OF enumerate_positions])
qed

lemma score_positions:
  "sorted_wrt (\<lambda>s t. fst s < fst t) (map fst (sentence_scores stop_words document))"
  unfolding keys_sentence_scores sentence_tokens_of_def
  by (rule sorted_wrt_filter [OF enumerate_positions])

lemma length_summary_sentences:
  "length (summary_sentences stop_words document f) =
     min (nat (select_length (length (doc_sents document)) f))
       (length (sentence_scores stop_words document))"
  by (simp add: summary_sentences_def select_sentences_def length_nlargest sentence_tokens_of_def)

lemma summary_sentences_bounds:
  assumes "sentence_scores stop_words document \<noteq> []"
  shows "1 \<le> length (summary_sentences stop_words document f)"
    and "length (summary_sentences stop_words document f) \<le> length (doc_sents document)"
proof -
  let ?sc = "sentence_scores stop_words document"
  have "1 \<le> length ?sc" using assms by (cases ?sc) simp_all
  moreover have "1 \<le> nat (select_length (length (doc_sents document)) f)"
    using select_length_ge_1 [of "length (doc_sents document)" f] by simp
  ultimately show "1 \<le> length (summary_sentences stop_words document f)"
    unfolding length_summary_sentences by simp
  show "length (summary_sentences stop_words document f) \<le> length (doc_sents document)"
    unfolding length_summary_sentences
    using length_sentence_scores [of stop_words document] by simp
qed

lemma summarize_text_Inr:
  assumes "summarize_text stop_words nlp text summary_length = Inr (summary, sents)"
  shows "strip text \<noteq> []"
    and "count_words stop_words (doc_words (nlp text)) \<noteq> []"
    and "sentence_scores stop_words (nlp text) \<noteq> []"
    and "summary = join_space (map (\<lambda>s. sent_text (snd s))
                     (summary_sentences stop_words (nlp text) summary_length))"
    and "sents = doc_sents (nlp text)"
  using assms by (simp_all add: summarize_text_def Let_def split: if_splits)

subsection \<open>The worked documents, evaluated\<close>

lemma fixed_nlp_apply: "fixed_nlp document text = document"
  by (simp add: fixed_nlp_def)

lemma wow_text_not_blank: "strip ''Wow. it works.'' \<noteq> []"
  by code_simp

lemma wow_two_sentences: "length (doc_sents wow_doc) = 2"
  by (simp add: wow_doc_def)

lemma wow_weighted_token:
  "list_ex (\<lambda>s. list_ex (\<lambda>w. lower w \<in> fst ` set (count_words [''it''] (doc_words wow_doc)))
                   (sent_words s)) (doc_sents wow_doc)"
  by code_simp

lemma wow_scores:
  "sentence_scores [''it''] wow_doc =
     [((1, \<lparr>sent_text = ''it works.'', sent_words = [''it'', ''works'', ''.'']\<rparr>), 1)]"
  by code_simp



lemma wow_selected:
  "summary_sentences [''it''] wow_doc 1 =
     [(1, \<lparr>sent_text = ''it works.'', sent_words = [''it'', ''works'', ''.'']\<rparr>)]"
  unfolding summary_sentences_def wow_scores by code_simp

lemma wow_counts:
  "count_words [''it''] (doc_words wow_doc) = [(''Wow'', 1), (''works'', 1)]"
  by code_simp

lemma wow_summary:
  "summarize_text [''it''] (fixed_nlp wow_doc) ''Wow. it works.'' 1 =
     Inr (''it works.'', doc_sents wow_doc)"
  by (simp add: summarize_text_def Let_def fixed_nlp_apply wow_text_not_blank wow_counts
        wow_scores wow_selected)

lemma stop_text_not_blank: "strip ''the of.'' \<noteq> []"
  by code_simp

lemma stop_doc_skipped:
  "list_all (\<lambda>w. lower w \<in> set [''the'', ''of''] \<or> sublist (lower w) punctuation)
     (doc_words stop_doc)"
  by code_simp

lemma blank_text_spaces: "list_all is_space ''  ''"
  by code_simp

lemma abc_counts:
  "count_words [''the''] [''Cats'', ''the'', ''cats'', ''Cats'', ''.''] = [(''Cats'', 2), (''cats'', 1)]"
  by code_simp

lemma abc_weights:
  "normalize (count_words [''the''] [''Cats'', ''the'', ''cats'', ''Cats'', ''.''])
     = [(''Cats'', 1), (''cats'', 1 / 2)]"
  by code_simp

lemma cats_filtered:
  "filter (\<lambda>(k, x). k = lower k) [(''Cats'', 1 :: rat), (''cats'', 1 / 2)] = [(''cats'', 1 / 2)]"
  by code_simp

lemma tie_scores:
  "sentence_scores [] tie_doc =
     [((0, \<lparr>sent_text = ''jog'', sent_words = [''jog'']\<rparr>), 1),
      ((1, \<lparr>sent_text = ''run run'', sent_words = [''run'', ''run'']\<rparr>), 2),
      ((2, \<lparr>sent_text = ''jog'', sent_words = [''jog'']\<rparr>), 1),
      ((3, \<lparr>sent_text = ''sit'', sent_words = [''sit'']\<rparr>), 1 / 2)]"
  by code_simp

lemma tie_selected_half:
  "summary_sentences [] tie_doc (1 / 2) =
     [(1, \<lparr>sent_text = ''run run'', sent_words = [''run'', ''run'']\<rparr>),
      (0, \<lparr>sent_text = ''jog'', sent_words = [''jog'']\<rparr>)]"
  unfolding summary_sentences_def tie_scores by code_simp

lemma tie_selected_quarter:
  "summary_sentences [] tie_doc (1 / 4) =
     [(1, \<lparr>sent_text = ''run run'', sent_words = [''run'', ''run'']\<rparr>)]"
  unfolding summary_sentences_def tie_scores by code_simp

lemma zoo_weights:
  "word_weights [] zoo_doc =
     [(''bee'', 5404319552844595 / 9007199254740992),
      (''cat'', 3602879701896397 / 18014398509481984),
      (''dog'', 3602879701896397 / 18014398509481984),
      (''elk'', 3602879701896397 / 18014398509481984),
      (''ox'', 1)]"
  by code_simp

lemma zoo_scores:
  "sentence_scores [] zoo_doc =
     [((0, \<lparr>sent_text = ''bee'', sent_words = [''bee'']\<rparr>),
       5404319552844595 / 9007199254740992),
      ((1, \<lparr>sent_text = ''cat dog elk'', sent_words = [''cat'', ''dog'', ''elk'']\<rparr>),
       5404319552844596 / 9007199254740992),
      ((2, \<lparr>sent_text = ''ox'', sent_words = [''ox'']\<rparr>), 1),
      ((3, \<lparr>sent_text = ''ox ox ox ox bee bee'',
           sent_words = [''ox'', ''ox'', ''ox'', ''ox'', ''bee'', ''bee'']\<rparr>),
       5854679515581644 / 1125899906842624)]"
  unfolding sentence_scores_def zoo_weights by code_simp

lemma zoo_selected:
  "summary_sentences [] zoo_doc (3 / 4) =
     [(3, \<lparr>sent_text = ''ox ox ox ox bee bee'',
          sent_words = [''ox'', ''ox'', ''ox'', ''ox'', ''bee'', ''bee'']\<rparr>),
      (2, \<lparr>sent_text = ''ox'', sent_words = [''ox'']\<rparr>),
      (1, \<lparr>sent_text = ''cat dog elk'', sent_words = [''cat'', ''dog'', ''elk'']\<rparr>)]"
  unfolding summary_sentences_def zoo_scores by code_simp

text \<open>
  The length presets 70% and 30% on 90 and on 10 sentences: \<open>int(90 * 0.7)\<close> is 62 and
  \<open>int(10 * 0.3)\<close> is 3, the products being \<open>62.99999999999999\<close> and \<open>3.0\<close>.
\<close>

lemma select_length_presets:
  "select_length 90 (7 / 10) = 62 \<and> select_length 10 (3 / 10) = 3"
  by code_simp

lemma tie_four_sentences: "length (doc_sents tie_doc) = 4"
  by (simp add: tie_doc_def)

section \<open>The claims\<close>

text \<open>
  C1 (as the code has it). When the text is not blank, so that it is tokenised at all, and
  some sentence holds a token whose lower-cased text is a key of the frequency table (the
  surface form of a counted token), the call succeeds: it returns the joined texts of the
  selected sentences with the sentence list, and at least one sentence is selected.
\<close>

theorem summarize_text_succeeds:
  assumes "strip text \<noteq> []"
    and "\<exists>s\<in>set (doc_sents (nlp text)). \<exists>w\<in>set (sent_words s).
           lower w \<in> fst ` set (count_words stop_words (doc_words (nlp text)))"
  shows "summarize_text stop_words nlp text summary_length
           = Inr (join_space (map (\<lambda>s. sent_text (snd s))
                    (summary_sentences stop_words (nlp text) summary_length)),
                  doc_sents (nlp text))
         \<and> 1 \<le> length (summary_sentences stop_words (nlp text) summary_length)"
proof -
  let ?d = "nlp text"
  let ?W = "word_weights stop_words ?d"
  from assms(2) obtain s w where s: "s \<in> set (doc_sents ?d)" and w: "w \<in> set (sent_words s)"
    and key: "lower w \<in> fst ` set (count_words stop_words (doc_words ?d))"
    by blast
  from key have counts: "count_words stop_words (doc_words ?d) \<noteq> []" by auto
  have "fst ` set ?W = fst ` set (count_words stop_words (doc_words ?d))"
    using normalize_keys [of "count_words stop_words (doc_words ?d)"]
    unfolding word_weights_def by (metis set_map)
  with key w have weighted: "looked_up ?W (sent_words s) \<noteq> []"
    unfolding looked_up_Nil_iff by blast
  from s obtain i where "(i, s) \<in> set (sentence_tokens_of ?d)"
    unfolding sentence_tokens_of_def in_set_conv_nth
    by (metis length_enumerate nth_enumerate_eq)
  with weighted have "(i, s) \<in> set (map fst (sentence_scores stop_words ?d))"
    unfolding keys_sentence_scores by simp
  then have scores: "sentence_scores stop_words ?d \<noteq> []" by auto
  have "summarize_text stop_words nlp text summary_length
           = Inr (join_space (map (\<lambda>s. sent_text (snd s))
                    (summary_sentences stop_words ?d summary_length)), doc_sents ?d)"
    using assms(1) counts scores by (simp add: summarize_text_def Let_def)
  with summary_sentences_bounds(1) [OF scores] show ?thesis by (intro conjI)
qed

theorem summarize_text_succeeds_witness:
  "summarize_text [''it''] (fixed_nlp wow_doc) ''Wow. it works.'' 1
     = Inr (''it works.'', doc_sents wow_doc)
   \<and> 1 \<le> length (summary_sentences [''it''] wow_doc 1)"
proof -
  have weighted: "\<exists>s\<in>set (doc_sents (fixed_nlp wow_doc ''Wow. it works.'')).
           \<exists>w\<in>set (sent_words s).
             lower w \<in> fst ` set (count_words [''it''] (doc_words (fixed_nlp wow_doc ''Wow. it works.'')))"
    using wow_weighted_token by (simp only: list_ex_iff fixed_nlp_apply)
  show ?thesis
    using summarize_text_succeeds
      [of "''Wow. it works.''" "fixed_nlp wow_doc" "[''it'']" 1, OF wow_text_not_blank weighted]
    by (simp add: fixed_nlp_apply wow_selected)
qed

text \<open>
  The text \<open>Cats\<close> has one sentence and its token is counted, under the key \<open>Cats\<close>;
  scoring looks up \<open>cats\<close>, finds no weight, and the call ends with the could-not-score
  error.
\<close>

theorem summarize_text_succeeds_counterexample:
  "strip ''Cats'' \<noteq> []
   \<and> doc_sents cats_doc \<noteq> []
   \<and> count_words [] (doc_words cats_doc) = [(''Cats'', 1)]
   \<and> summarize_text [] (fixed_nlp cats_doc) ''Cats'' (3 / 10) = Inl CouldNotScore"
  by code_simp

text \<open>
  C2. When at least one token is counted, every normalised weight lies in the interval
  from 0 (excluded) to 1 (included), the largest weight is exactly 1, and each surface form
  with the highest count has weight exactly 1.
\<close>

theorem normalized_weights_range:
  assumes "count_words stop_words ws \<noteq> []"
  shows "(\<forall>(w, x) \<in> set (normalize (count_words stop_words ws)). 0 < x \<and> x \<le> 1)
         \<and> Max (set (map snd (normalize (count_words stop_words ws)))) = 1
         \<and> (\<forall>w. (w, Max (set (map snd (count_words stop_words ws)))) \<in> set (count_words stop_words ws)
                \<longrightarrow> map_of (normalize (count_words stop_words ws)) w = Some 1)
         \<and> (\<exists>w. map_of (normalize (count_words stop_words ws)) w = Some 1)"
proof -
  let ?tbl = "count_words stop_words ws"
  have pos: "\<forall>(w, c) \<in> set ?tbl. 0 < c" by (rule count_words_positive)
  have range: "\<forall>(w, x) \<in> set (normalize ?tbl). 0 < x \<and> x \<le> 1"
    using normalize_range [OF pos] by blast
  have top: "Max (set (map snd (normalize ?tbl))) = 1"
    using pos assms by (rule normalize_max)
  have most: "\<forall>w. (w, Max (set (map snd ?tbl))) \<in> set ?tbl
                \<longrightarrow> map_of (normalize ?tbl) w = Some 1"
    using normalize_most_frequent [OF pos distinct_count_words] by blast
  have "\<exists>w. map_of (normalize ?tbl) w = Some 1"
    using most max_frequency_attained [OF assms] by blast
  with range top most show ?thesis by (intro conjI)
qed

theorem normalized_weights_range_witness:
  "count_words [''the''] [''Cats'', ''the'', ''cats'', ''Cats'', ''.''] \<noteq> []
   \<and> normalize (count_words [''the''] [''Cats'', ''the'', ''cats'', ''Cats'', ''.''])
       = [(''Cats'', 1), (''cats'', 1 / 2)]
   \<and> Max (set (map snd (normalize (count_words [''the''] [''Cats'', ''the'', ''cats'', ''Cats'', ''.''])))) = 1"
proof -
  have ne: "count_words [''the''] [''Cats'', ''the'', ''cats'', ''Cats'', ''.''] \<noteq> []"
    by (simp add: abc_counts)
  show ?thesis
    using normalized_weights_range [OF ne] ne abc_weights by simp
qed

text \<open>
  C3 (as the code has it). A token is skipped exactly when its lower-cased text is a stop
  word or occurs in the punctuation string as a substring; every single punctuation
  character does. Any other token adds one to the count stored under its own text, so
  after the loop a surface form maps to the number of its occurrences, and forms that
  differ only in case have separate entries.
\<close>

theorem count_words_by_surface_form:
  "(count_word stop_words tbl w = tbl
      \<longleftrightarrow> lower w \<in> set stop_words \<or> sublist (lower w) punctuation)
   \<and> (\<forall>c\<in>set punctuation. count_word stop_words tbl [c] = tbl)
   \<and> map_of (count_word stop_words tbl w) =
       (if lower w \<in> set stop_words \<or> sublist (lower w) punctuation then map_of tbl
        else (map_of tbl)(w \<mapsto> (case map_of tbl w of None \<Rightarrow> 1 | Some c \<Rightarrow> c + 1)))
   \<and> map_of (count_words stop_words ws) w =
       (if w \<in> set ws \<and> \<not> (lower w \<in> set stop_words \<or> sublist (lower w) punctuation)
        then Some (count_list ws w) else None)"
proof -
  have skip: "counted stop_words v \<longleftrightarrow> \<not> (lower v \<in> set stop_words \<or> sublist (lower v) punctuation)"
    for v by (simp add: counted_def Let_def)
  have one: "count_word stop_words tbl w = tbl
      \<longleftrightarrow> lower w \<in> set stop_words \<or> sublist (lower w) punctuation"
  proof (cases "counted stop_words w")
    case True
    then have "count_word stop_words tbl w \<noteq> tbl" by (rule count_word_changes)
    with True show ?thesis by (simp add: skip)
  next
    case False
    then have "count_word stop_words tbl w = tbl" by (simp add: count_word_def)
    with False show ?thesis by (simp add: skip)
  qed
  have two: "\<forall>c\<in>set punctuation. count_word stop_words tbl [c] = tbl"
  proof
    fix c assume c: "c \<in> set punctuation"
    then have "sublist (lower [c]) punctuation"
      by (simp only: lower_punctuation_char single_punctuation)
    then have "\<not> counted stop_words [c]" by (simp add: skip)
    then show "count_word stop_words tbl [c] = tbl" by (simp add: count_word_def)
  qed
  have three: "map_of (count_word stop_words tbl w) =
       (if lower w \<in> set stop_words \<or> sublist (lower w) punctuation then map_of tbl
        else (map_of tbl)(w \<mapsto> (case map_of tbl w of None \<Rightarrow> 1 | Some c \<Rightarrow> c + 1)))"
    unfolding map_of_count_word by (simp add: skip)
  have four: "map_of (count_words stop_words ws) w =
       (if w \<in> set ws \<and> \<not> (lower w \<in> set stop_words \<or> sublist (lower w) punctuation)
        then Some (count_list ws w) else None)"
    unfolding map_of_count_words by (simp add: skip)
  from one two three four show ?thesis by (intro conjI)
qed

theorem count_words_by_surface_form_witness:
  "map_of (count_words [''the''] [''Cats'', ''the'', ''cats'', ''Cats'', ''.'']) ''Cats'' = Some 2
   \<and> map_of (count_words [''the''] [''Cats'', ''the'', ''cats'', ''Cats'', ''.'']) ''cats'' = Some 1
   \<and> map_of (count_words [''the''] [''Cats'', ''the'', ''cats'', ''Cats'', ''.'']) ''the'' = None"
proof -
  have "map_of (count_words [''the''] [''Cats'', ''the'', ''cats'', ''Cats'', ''.'']) ''Cats''
          = Some 2"
    using count_words_by_surface_form
      [of "[''the'']" "[]" "''Cats''" "[''Cats'', ''the'', ''cats'', ''Cats'', ''.'']"]
    by (simp add: abc_counts)
  then show ?thesis by (simp add: abc_counts)
qed

text \<open>
  The token \<open><=\<close> is no stop word and is two characters long, yet it is skipped: it is
  a substring of the punctuation string.
\<close>

theorem skipped_iff_single_punctuation_counterexample:
  "lower ''<='' \<notin> set [] \<and> length (lower ''<='') = 2 \<and> sublist (lower ''<='') punctuation
   \<and> count_word [] [] ''<='' = [] \<and> count_words [] [''<=''] = []"
  by code_simp

text \<open>
  C4 (as the code has it). On a successful call the summary joins the texts of the selected
  sentences, and their number is the smaller of \<open>max(1, int(n * summary_length))\<close> and the
  number of scored sentences, where \<open>n\<close> is the number of sentences of the document and the
  product is the float product. It is at least 1 and at most \<open>n\<close>. For a fraction that is
  not negative, \<open>int\<close> is the floor of that product.
\<close>

theorem summary_sentence_count:
  assumes "summarize_text stop_words nlp text summary_length = Inr (summary, sents)"
  shows "summary = join_space (map (\<lambda>s. sent_text (snd s))
                     (summary_sentences stop_words (nlp text) summary_length))
         \<and> length (summary_sentences stop_words (nlp text) summary_length)
             = min (nat (select_length (length (doc_sents (nlp text))) summary_length))
                 (length (sentence_scores stop_words (nlp text)))
         \<and> 1 \<le> length (summary_sentences stop_words (nlp text) summary_length)
         \<and> length (summary_sentences stop_words (nlp text) summary_length)
             \<le> length (doc_sents (nlp text))
         \<and> (0 \<le> summary_length \<longrightarrow>
               select_length (length (doc_sents (nlp text))) summary_length
                 = max 1 \<lfloor>fl_mul (length (doc_sents (nlp text))) (round_double summary_length)\<rfloor>)"
proof -
  note ok = summarize_text_Inr [OF assms]
  have "0 \<le> summary_length \<longrightarrow>
               select_length (length (doc_sents (nlp text))) summary_length
                 = max 1 \<lfloor>fl_mul (length (doc_sents (nlp text))) (round_double summary_length)\<rfloor>"
    by (simp add: select_length_floor)
  with ok(4) length_summary_sentences summary_sentences_bounds [OF ok(3)]
  show ?thesis by (intro conjI)
qed

theorem summary_sentence_count_witness:
  "summarize_text [''it''] (fixed_nlp wow_doc) ''Wow. it works.'' 1
     = Inr (''it works.'', doc_sents wow_doc)
   \<and> length (summary_sentences [''it''] wow_doc 1) = 1
   \<and> length (sentence_scores [''it''] wow_doc) = 1
   \<and> select_length (length (doc_sents wow_doc)) 1 = 2"
  using summary_sentence_count [OF wow_summary] wow_summary
  by (simp add: fixed_nlp_apply wow_selected wow_scores wow_two_sentences select_length_one)

text \<open>
  The text \<open>Wow. it works.\<close> has two sentences and the fraction is 1.0, so
  \<open>max(1, floor(2 * 1.0))\<close> is 2; the summary has one sentence, the only scored one.
\<close>

theorem summary_sentence_count_counterexample:
  "summarize_text [''it''] (fixed_nlp wow_doc) ''Wow. it works.'' 1
     = Inr (''it works.'', doc_sents wow_doc)
   \<and> length (summary_sentences [''it''] wow_doc 1) = 1
   \<and> max 1 \<lfloor>fl_mul (length (doc_sents wow_doc)) (round_double 1)\<rfloor> = 2"
proof -
  have "fl_mul 2 (round_double 1) = 2"
    by (simp add: round_double_one fl_mul_one)
  then show ?thesis by (simp add: wow_summary wow_selected wow_two_sentences)
qed



text \<open>
  C6. The keys of the score dictionary stand in document order, whatever the weights are.
  From any score dictionary whose keys stand in document order, the selected sentences come
  out by falling score, and among equal scores by rising position in the document; a scored
  sentence that is left out ranks after every selected one in that order: it has a lower
  score, or the same score and a later position. Hence the selection is a function of the
  scores and positions alone.
\<close>

theorem selection_order:
  assumes "sorted_wrt (\<lambda>s t. fst s < fst t) (map fst sentence_score)"
  shows "sorted_wrt (\<lambda>s t. score_get sentence_score t < score_get sentence_score s
                    \<or> (score_get sentence_score s = score_get sentence_score t \<and> fst s < fst t))
           (select_sentences sentence_score n summary_length)
         \<and> (\<forall>t\<in>set (select_sentences sentence_score n summary_length).
              \<forall>s\<in>fst ` set sentence_score - set (select_sentences sentence_score n summary_length).
                score_get sentence_score s < score_get sentence_score t
                \<or> (score_get sentence_score t = score_get sentence_score s \<and> fst t < fst s))
         \<and> set (select_sentences sentence_score n summary_length) \<subseteq> fst ` set sentence_score
         \<and> (\<forall>s\<in>fst ` set sentence_score.
               map_of sentence_score s = Some (score_get sentence_score s))
         \<and> sorted_wrt (\<lambda>s t. fst s < fst t)
               (map fst (score_sentences tbl (sentence_tokens_of document)))"
proof -
  let ?sc = sentence_score
  let ?sel = "select_sentences ?sc n summary_length"
  have sel: "?sel = nlargest (select_length n summary_length) (map fst ?sc) (score_get ?sc)"
    by (simp add: select_sentences_def)
  have keys: "set (map fst ?sc) = fst ` set ?sc" by simp
  have one: "sorted_wrt (\<lambda>s t. score_get ?sc t < score_get ?sc s
                    \<or> (score_get ?sc s = score_get ?sc t \<and> fst s < fst t)) ?sel"
    unfolding sel by (rule nlargest_ranked(1) [OF assms])
  have two: "\<forall>t\<in>set ?sel. \<forall>s\<in>fst ` set ?sc - set ?sel.
          score_get ?sc s < score_get ?sc t
          \<or> (score_get ?sc t = score_get ?sc s \<and> fst t < fst s)"
    unfolding sel keys [symmetric] by (rule nlargest_ranked(2) [OF assms])
  have three: "set ?sel \<subseteq> fst ` set ?sc"
    unfolding sel keys [symmetric] by (rule set_nlargest_subset)
  have four: "\<forall>s\<in>fst ` set ?sc. map_of ?sc s = Some (score_get ?sc s)"
  proof
    fix s assume "s \<in> fst ` set ?sc"
    then obtain x where "map_of ?sc s = Some x"
      using map_of_eq_None_iff [of ?sc s] by (cases "map_of ?sc s") auto
    then show "map_of ?sc s = Some (score_get ?sc s)" by (simp add: score_get_def)
  qed
  have five: "sorted_wrt (\<lambda>s t. fst s < fst t)
               (map fst (score_sentences tbl (sentence_tokens_of document)))"
    by (rule score_sentences_positions)
  from one two three four five show ?thesis by (intro conjI)
qed

theorem selection_order_witness:
  "summary_sentences [] tie_doc (1 / 2) =
     [(1, \<lparr>sent_text = ''run run'', sent_words = [''run'', ''run'']\<rparr>),
      (0, \<lparr>sent_text = ''jog'', sent_words = [''jog'']\<rparr>)]
   \<and> score_get (sentence_scores [] tie_doc) (0, \<lparr>sent_text = ''jog'', sent_words = [''jog'']\<rparr>)
       = score_get (sentence_scores [] tie_doc) (2, \<lparr>sent_text = ''jog'', sent_words = [''jog'']\<rparr>)
   \<and> score_get (sentence_scores [] tie_doc) (0, \<lparr>sent_text = ''jog'', sent_words = [''jog'']\<rparr>)
       < score_get (sentence_scores [] tie_doc) (1, \<lparr>sent_text = ''run run'', sent_words = [''run'', ''run'']\<rparr>)
   \<and> summary_sentences [] zoo_doc (3 / 4) =
     [(3, \<lparr>sent_text = ''ox ox ox ox bee bee'',
          sent_words = [''ox'', ''ox'', ''ox'', ''ox'', ''bee'', ''bee'']\<rparr>),
      (2, \<lparr>sent_text = ''ox'', sent_words = [''ox'']\<rparr>),
      (1, \<lparr>sent_text = ''cat dog elk'', sent_words = [''cat'', ''dog'', ''elk'']\<rparr>)]
   \<and> score_get (sentence_scores [] zoo_doc) (0, \<lparr>sent_text = ''bee'', sent_words = [''bee'']\<rparr>)
       < score_get (sentence_scores [] zoo_doc)
           (1, \<lparr>sent_text = ''cat dog elk'', sent_words = [''cat'', ''dog'', ''elk'']\<rparr>)"
proof -
  have tie: "sorted_wrt (\<lambda>s t. fst s < fst t) (map fst (sentence_scores [] tie_doc))"
    by (rule score_positions)
  have zoo: "sorted_wrt (\<lambda>s t. fst s < fst t) (map fst (sentence_scores [] zoo_doc))"
    by (rule score_positions)
  show ?thesis
    using selection_order [OF tie, of "length (sentence_tokens_of tie_doc)" "1 / 2"]
      selection_order [OF zoo, of "length (sentence_tokens_of zoo_doc)" "3 / 4"]
    unfolding summary_sentences_def [symmetric]
    by (simp add: tie_selected_half tie_scores zoo_selected zoo_scores score_get_def)
qed

text \<open>
  C7. When the text is not blank, so that it is tokenised at all, and every token of the
  document is filtered out (its lower-cased text is a stop word or occurs in the
  punctuation string), the answer is the no-meaningful-words error, which is neither the
  empty-input nor the could-not-score error.
\<close>

theorem no_meaningful_words:
  assumes "strip text \<noteq> []"
    and "\<forall>w\<in>set (doc_words (nlp text)). lower w \<in> set stop_words \<or> sublist (lower w) punctuation"
  shows "summarize_text stop_words nlp text summary_length = Inl NoMeaningfulWords
         \<and> NoMeaningfulWords \<noteq> NoText \<and> NoMeaningfulWords \<noteq> CouldNotScore"
proof -
  have "\<forall>w\<in>set (doc_words (nlp text)). \<not> counted stop_words w"
    using assms(2) by (simp add: counted_def Let_def)
  then have "count_words stop_words (doc_words (nlp text)) = []"
    by (simp only: count_words_Nil_iff)
  then show ?thesis using assms(1) by (simp add: summarize_text_def)
qed

theorem no_meaningful_words_witness:
  "summarize_text [''the'', ''of''] (fixed_nlp stop_doc) ''the of.'' (3 / 10) = Inl NoMeaningfulWords"
proof -
  have skipped: "\<forall>w\<in>set (doc_words (fixed_nlp stop_doc ''the of.'')).
                   lower w \<in> set [''the'', ''of''] \<or> sublist (lower w) punctuation"
    using stop_doc_skipped by (simp only: list_all_iff fixed_nlp_apply)
  show ?thesis
    using no_meaningful_words [of "''the of.''" "fixed_nlp stop_doc" "[''the'', ''of'']" "3 / 10",
        OF stop_text_not_blank skipped]
    by simp
qed

text \<open>
  C8. A text that is empty or holds only whitespace is answered with the empty-input
  error, whatever the tokeniser and the stop words are: neither is consulted.
\<close>

theorem empty_input_rejected:
  assumes "\<forall>c\<in>set text. is_space c"
  shows "strip text = [] \<and> summarize_text stop_words nlp text summary_length = Inl NoText"
proof -
  have "strip text = []" using assms by (simp only: strip_empty_iff)
  then show ?thesis by (simp add: summarize_text_def)
qed

theorem empty_input_rejected_witness:
  "summarize_text [] (fixed_nlp cats_doc) ''  '' (3 / 10) = Inl NoText
   \<and> summarize_text [''it''] (fixed_nlp wow_doc) [] 1 = Inl NoText"
proof -
  have spaces: "\<forall>c\<in>set ''  ''. is_space c"
    using blank_text_spaces by (simp only: list_all_iff)
  have none: "\<forall>c\<in>set ([] :: string). is_space c" by simp
  show ?thesis
    using empty_input_rejected [where stop_words = "[]"
        and nlp = "fixed_nlp cats_doc" and summary_length = "3 / 10", OF spaces]
      empty_input_rejected [where stop_words = "[''it'']"
        and nlp = "fixed_nlp wow_doc" and summary_length = 1, OF none]
    by simp
qed

text \<open>
  C9. A larger fraction never selects fewer sentences of the same document. With the
  fraction 1.0 the selection holds every scored sentence, and only those, for a document
  of fewer than \<open>2^53\<close> sentences (the length of a list is an \<open>int\<close> that is a double).
\<close>

theorem selection_monotone:
  assumes "f1 \<le> f2"
  shows "length (summary_sentences stop_words document f1)
           \<le> length (summary_sentences stop_words document f2)
         \<and> (length (doc_sents document) < 2 ^ 53 \<longrightarrow>
               set (summary_sentences stop_words document 1)
                 = fst ` set (sentence_scores stop_words document)
               \<and> length (summary_sentences stop_words document 1)
                 = length (sentence_scores stop_words document))"
proof -
  let ?sc = "sentence_scores stop_words document"
  let ?n = "length (doc_sents document)"
  have "nat (select_length ?n f1) \<le> nat (select_length ?n f2)"
    using select_length_mono [OF assms, of ?n] by simp
  then have mono: "length (summary_sentences stop_words document f1)
           \<le> length (summary_sentences stop_words document f2)"
    unfolding length_summary_sentences by simp
  have full: "set (summary_sentences stop_words document 1) = fst ` set ?sc
               \<and> length (summary_sentences stop_words document 1) = length ?sc"
    if small: "?n < 2 ^ 53"
  proof -
    have le: "length ?sc \<le> ?n" by (rule length_sentence_scores)
    then have all: "length (map fst ?sc) \<le> nat (select_length (length (sentence_tokens_of document)) 1)"
      using small by (simp add: select_length_one sentence_tokens_of_def)
    have "set (summary_sentences stop_words document 1) = set (map fst ?sc)"
      unfolding summary_sentences_def select_sentences_def by (rule nlargest_all [OF all])
    then have "set (summary_sentences stop_words document 1) = fst ` set ?sc" by simp
    moreover have "length (summary_sentences stop_words document 1) = length ?sc"
      unfolding length_summary_sentences using le small by (simp add: select_length_one)
    ultimately show ?thesis by (intro conjI)
  qed
  with mono show ?thesis by (intro conjI impI) simp_all
qed

theorem selection_monotone_witness:
  "(1 / 4 :: rat) \<le> 1 / 2
   \<and> length (summary_sentences [] tie_doc (1 / 4)) = 1
   \<and> length (summary_sentences [] tie_doc (1 / 2)) = 2
   \<and> length (doc_sents tie_doc) < 2 ^ 53
   \<and> length (summary_sentences [] tie_doc 1) = length (sentence_scores [] tie_doc)
   \<and> length (summary_sentences [''it''] wow_doc 1) = 1
   \<and> length (doc_sents wow_doc) = 2"
proof -
  have le: "(1 / 4 :: rat) \<le> 1 / 2" by simp
  have small: "length (doc_sents tie_doc) < 2 ^ 53" by (simp add: tie_four_sentences)
  show ?thesis
    using selection_monotone [OF le, of "[]" tie_doc] le small
    by (simp add: tie_selected_half tie_selected_quarter wow_selected wow_two_sentences)
qed

text \<open>
  C10. Scoring reads the weight table at lower-cased texts only: dropping every key that
  differs from its own lower-cased form leaves the score dictionary as it is. Every score
  in the dictionary is strictly positive.
\<close>

theorem capitalised_weights_unread:
  "score_sentences (filter (\<lambda>(k, x). k = lower k) tbl) sentence_tokens
     = score_sentences tbl sentence_tokens
   \<and> score_sentences (filter (\<lambda>(k, x). k = lower k) (word_weights stop_words document))
       (sentence_tokens_of document) = sentence_scores stop_words document
   \<and> (\<forall>(s, x) \<in> set (sentence_scores stop_words document). 0 < x)"
proof -
  have same: "score_sentences (filter (\<lambda>(k, x). k = lower k) t) ss = score_sentences t ss"
    for t ss
  proof -
    have "score_sentence (filter (\<lambda>(k, x). k = lower k) t) = score_sentence t"
      by (intro ext) (simp only: score_sentence_def score_word_lowercase_keys)
    then show ?thesis by (simp only: score_sentences_def)
  qed
  have "score_sentences (filter (\<lambda>(k, x). k = lower k) (word_weights stop_words document))
       (sentence_tokens_of document) = sentence_scores stop_words document"
    unfolding sentence_scores_def by (rule same)
  with same sentence_scores_positive show ?thesis by (intro conjI)
qed

theorem capitalised_weights_unread_witness:
  "score_sentences [(''cats'', 1 / 2)] (sentence_tokens_of wow_doc)
     = score_sentences [(''Cats'', 1), (''cats'', 1 / 2)] (sentence_tokens_of wow_doc)
   \<and> sentence_scores [''it''] wow_doc =
       [((1, \<lparr>sent_text = ''it works.'', sent_words = [''it'', ''works'', ''.'']\<rparr>), 1)]"
  using capitalised_weights_unread
    [of "[(''Cats'', 1), (''cats'', 1 / 2)]" "sentence_tokens_of wow_doc" "[''it'']" wow_doc]
  by (simp only: cats_filtered wow_scores simp_thms)

end
